theory Spec2Isabelle
  imports Main "HOL-Library.Word"
begin

unbundle bit_operations_syntax

section \<open>Machine integers of the STM8 target\<close>

text \<open>
  All three compilers the headers support (SDCC, Cosmic, IAR) give the STM8 an 8-bit
  \<open>char\<close>, a 16-bit \<open>int\<close> and a 32-bit \<open>long\<close>.
\<close>

type_synonym u8 = "8 word"
type_synonym u16 = "16 word"
type_synonym u32 = "32 word"
type_synonym c_int = "16 word"

section \<open>The port module (include/STM8AF6289.h, \<open>PORT_t\<close>)\<close>

text \<open>
  \<open>PORT_t\<close> is a struct of five byte registers, in this order. Each register is a union
  of a \<open>byte\<close> and eight one-bit fields; bit field \<open>k\<close> is bit \<open>k\<close> of the byte.
\<close>

record PORT_t =
  ODR :: u8
  IDR :: u8
  DDR :: u8
  CR1 :: u8
  CR2 :: u8

section \<open>examples/blink\_noInterrupt/main.c\<close>

text \<open>
  \<^verbatim>\<open>void toggle_pin(PORT_t *port, uint8_t pin) { port->ODR.byte ^= (1 << pin); }\<close>

  \<open>1\<close> is an \<open>int\<close>, so \<open>1 << pin\<close> is computed in 16 bits; the shift is undefined in C
  when the result does not fit the \<open>int\<close> (\<open>pin \<ge> 15\<close>), which the model returns as
  \<open>None\<close>. \<open>ODR.byte\<close> is promoted to \<open>int\<close> for the XOR, and the result is truncated
  to a byte on the store.
\<close>

definition toggle_pin :: "PORT_t \<Rightarrow> u8 \<Rightarrow> PORT_t option" where
  "toggle_pin port pin =
     (if unat pin < 15
      then Some (port\<lparr>ODR := ucast ((ucast (ODR port) :: c_int) XOR push_bit (unat pin) 1)\<rparr>)
      else None)"

section \<open>examples/adc1\_scan/main.c\<close>

subsection \<open>The output routine\<close>

text \<open>
  \<^verbatim>\<open>int putchar(int data) { UART2_write(data); return(data); }\<close>

  \<open>UART2_write\<close> comes from uart2.h, which is not among the sources, so it is a
  parameter here: a sink that takes its state and the value and returns its new state
  together with an outcome \<open>'r\<close> (the byte written or an error). The call is an
  expression statement: \<open>putchar\<close> drops the outcome.
\<close>

definition putchar :: "('u \<Rightarrow> c_int \<Rightarrow> 'u \<times> 'r) \<Rightarrow> c_int \<Rightarrow> 'u \<Rightarrow> c_int \<times> 'u" where
  "putchar UART2_write data u = (case UART2_write u data of (u', r) \<Rightarrow> (data, u'))"

text \<open>
  Modelled from the spec: the output sink behind \<open>UART2_write\<close> (uart2.h is missing).
  The spec has it as a byte-oriented write whose byte is assumed always accepted: the low
  byte of the value is appended to the bytes sent so far, and the outcome is that byte.
\<close>

definition UART2_write :: "string \<Rightarrow> c_int \<Rightarrow> string \<times> u8" where
  "UART2_write sent data = (sent @ [char_of (unat data)], ucast data)"

subsection \<open>\<open>printf\<close>\<close>

text \<open>
  \<open>printf\<close> is the C library's: it formats its arguments and hands the characters to
  \<open>putchar\<close> one by one. \<open>%d\<close> and \<open>%ld\<close> print a signed integer in decimal: a minus
  sign for a negative value, then the digits without leading zeros.
\<close>

definition digit :: "nat \<Rightarrow> char" where
  "digit d = char_of (48 + d)"

function dec :: "nat \<Rightarrow> string" where
  "dec n = (if n < 10 then [digit n] else dec (n div 10) @ [digit (n mod 10)])"
  by pat_completeness auto
termination
  by (relation "measure id") auto

definition fmt_d :: "int \<Rightarrow> string" where
  "fmt_d i = (if i < 0 then CHR ''-'' # dec (nat (- i)) else dec (nat i))"

definition put_all :: "string \<Rightarrow> string \<Rightarrow> string" where
  "put_all str sent = fold (\<lambda>c u. snd (putchar UART2_write (of_nat (of_char c)) u)) str sent"

subsection \<open>The machine state\<close>

text \<open>
  The program points of the main loop, one for each statement of its body:
  the test \<open>g_millis >= nextPrint\<close>, \<open>nextPrint += 500\<close>, the toggle of the LED and
  the five calls of \<open>printf\<close>.
\<close>

datatype label = At_if | At_nextPrint | At_toggle | At_time | At_AIN0 | At_AIN1 | At_AIN2 | At_AIN3

text \<open>
  Modelled from the spec: the shared variables \<open>g_millis\<close> and \<open>g_ADC_result\<close>, which
  \<open>main\<close> reads and timer4.h and adc1.h (not among the sources) declare, and the state
  of the handler. \<open>g_millis\<close> is the Tick Counter, an unsigned integer that wraps, taken
  as 32 bits wide (it is compared with the \<open>uint32_t nextPrint\<close> and printed with
  \<open>%ld\<close>); \<open>g_ADC_result\<close> is the Channel Result Array, one integer sample value for
  each of the \<open>N_CHANNELS = 4\<close> channels, taken as 16 bits wide (it is cast to \<open>int\<close>);
  \<open>ChannelCursor\<close> is the Channel Cursor, the index of the next channel to convert;
  \<open>ADC_channel\<close> is the channel of the conversion under way.
  The other fields are those of main.c: \<open>nextPrint\<close> is the local of \<open>main\<close>,
  \<open>sfr_PORTC\<close> the port of the LED, \<open>UART_out\<close> the bytes sent to the output sink so
  far, \<open>pc\<close> the program point of the loop.
\<close>

definition N_CHANNELS :: nat where
  "N_CHANNELS = 4"

record state =
  g_millis :: u32
  g_ADC_result :: "u16 list"
  ChannelCursor :: nat
  ADC_channel :: nat
  nextPrint :: u32
  sfr_PORTC :: PORT_t
  UART_out :: string
  pc :: label

subsection \<open>The main loop, statement by statement\<close>

definition printf :: "string \<Rightarrow> state \<Rightarrow> state" where
  "printf str s = s\<lparr>UART_out := put_all str (UART_out s)\<rparr>"

text \<open>\<^verbatim>\<open>nextPrint += 500;\<close>\<close>

definition stmt_nextPrint :: "state \<Rightarrow> state" where
  "stmt_nextPrint s = s\<lparr>nextPrint := nextPrint s + 500\<rparr>"

text \<open>\<^verbatim>\<open>sfr_PORTC.ODR.ODR5 ^= 1;\<close> (\<open>ODR5\<close> is bit 5 of the register)\<close>

definition stmt_toggle :: "state \<Rightarrow> state" where
  "stmt_toggle s = s\<lparr>sfr_PORTC := (sfr_PORTC s)\<lparr>ODR := ODR (sfr_PORTC s) XOR push_bit 5 1\<rparr>\<rparr>"

text \<open>
  \<^verbatim>\<open>printf("  time: %ld  ", g_millis);\<close>
  \<^verbatim>\<open>printf("  AIN0: %d  ", (int) (g_ADC_result[0]));\<close> and so on;
  \<^verbatim>\<open>printf("  AIN3: %d\n", (int) (g_ADC_result[3]));\<close>
\<close>

definition print_time :: "state \<Rightarrow> state" where
  "print_time s = printf (''  time: '' @ fmt_d (sint (g_millis s)) @ ''  '') s"

definition print_AIN0 :: "state \<Rightarrow> state" where
  "print_AIN0 s = printf (''  AIN0: '' @ fmt_d (sint (g_ADC_result s ! 0)) @ ''  '') s"

definition print_AIN1 :: "state \<Rightarrow> state" where
  "print_AIN1 s = printf (''  AIN1: '' @ fmt_d (sint (g_ADC_result s ! 1)) @ ''  '') s"

definition print_AIN2 :: "state \<Rightarrow> state" where
  "print_AIN2 s = printf (''  AIN2: '' @ fmt_d (sint (g_ADC_result s ! 2)) @ ''  '') s"

definition print_AIN3 :: "state \<Rightarrow> state" where
  "print_AIN3 s = printf (''  AIN3: '' @ fmt_d (sint (g_ADC_result s ! 3)) @ [CHR 0x0A]) s"

text \<open>
  One statement of the foreground loop, from the program point the loop is at. When the
  test fails the loop comes back to the test.
\<close>

definition fg_step :: "state \<Rightarrow> state" where
  "fg_step s =
     (case pc s of
        At_if \<Rightarrow> if nextPrint s \<le> g_millis s then s\<lparr>pc := At_nextPrint\<rparr> else s
      | At_nextPrint \<Rightarrow> (stmt_nextPrint s)\<lparr>pc := At_toggle\<rparr>
      | At_toggle \<Rightarrow> (stmt_toggle s)\<lparr>pc := At_time\<rparr>
      | At_time \<Rightarrow> (print_time s)\<lparr>pc := At_AIN0\<rparr>
      | At_AIN0 \<Rightarrow> (print_AIN0 s)\<lparr>pc := At_AIN1\<rparr>
      | At_AIN1 \<Rightarrow> (print_AIN1 s)\<lparr>pc := At_AIN2\<rparr>
      | At_AIN2 \<Rightarrow> (print_AIN2 s)\<lparr>pc := At_AIN3\<rparr>
      | At_AIN3 \<Rightarrow> (print_AIN3 s)\<lparr>pc := At_if\<rparr>)"

text \<open>
  The state in which \<open>main\<close> enters its loop: \<open>nextPrint = 0\<close>; pin 5 of port C set up
  as a push-pull output, the other port registers at their reset value 0; nothing sent;
  the globals zero, as C initialises them.
\<close>

definition main_init :: state where
  "main_init =
     \<lparr>g_millis = 0, g_ADC_result = replicate N_CHANNELS 0, ChannelCursor = 0, ADC_channel = 0,
      nextPrint = 0,
      sfr_PORTC = \<lparr>ODR = 0, IDR = 0, DDR = 0x20, CR1 = 0x20, CR2 = 0x20\<rparr>,
      UART_out = [], pc = At_if\<rparr>"

subsection \<open>The Sampling Handler\<close>

text \<open>
  Modelled from the spec: the Sampling Handler, the timer's interrupt service routine,
  whose code (timer4 and adc1) is not among the sources. In the spec's words, on each
  timer firing it (a) reads the conversion result belonging to the previously started
  conversion, (b) stores it into \<open>ChannelResultArray[ChannelCursor]\<close>, (c) advances
  \<open>ChannelCursor\<close> modulo N, (d) starts the next conversion for the new cursor's channel,
  (e) increments \<open>TickCounter\<close>. The conversion result read in (a) is the argument.
  The store of (b) is inside the array as long as the cursor is below \<open>N_CHANNELS\<close>,
  which holds from startup on (\<open>reachable_sampler_invariant\<close> below); a list update
  outside the list would leave it as it is.
\<close>

definition Sampling_Handler :: "u16 \<Rightarrow> state \<Rightarrow> state" where
  "Sampling_Handler conv s =
     (let c = (ChannelCursor s + 1) mod N_CHANNELS
      in s\<lparr>g_ADC_result := (g_ADC_result s)[ChannelCursor s := conv],
            ChannelCursor := c,
            ADC_channel := c,
            g_millis := g_millis s + 1\<rparr>)"

subsection \<open>Interleavings\<close>

text \<open>
  The interrupt preempts the foreground loop between any two of its statements, and runs
  to completion. An interleaving is a list of events: \<open>Fg\<close>, the loop executes its next
  statement, or \<open>Isr conv\<close>, the timer fires with \<open>conv\<close> in the conversion register.
\<close>

datatype event = Fg | Isr u16

fun step :: "event \<Rightarrow> state \<Rightarrow> state" where
  "step Fg s = fg_step s"
| "step (Isr conv) s = Sampling_Handler conv s"

fun run :: "event list \<Rightarrow> state \<Rightarrow> state" where
  "run [] s = s"
| "run (e # es) s = run es (step e s)"

text \<open>The number of timer firings of an interleaving, and the conversion results they read.\<close>

fun firings :: "event list \<Rightarrow> nat" where
  "firings [] = 0"
| "firings (Fg # es) = firings es"
| "firings (Isr conv # es) = Suc (firings es)"

fun conversions :: "event list \<Rightarrow> u16 list" where
  "conversions [] = []"
| "conversions (Fg # es) = conversions es"
| "conversions (Isr conv # es) = conv # conversions es"

text \<open>
  What an interleaving does, as lists in the order of time: the tick values at which the
  test of the loop succeeded (a report fires), and the slots of the result array the
  handler wrote.
\<close>

fun fires :: "event list \<Rightarrow> state \<Rightarrow> u32 list" where
  "fires [] s = []"
| "fires (Fg # es) s =
     (if pc s = At_if \<and> nextPrint s \<le> g_millis s then g_millis s # fires es (step Fg s)
      else fires es (step Fg s))"
| "fires (Isr conv # es) s = fires es (step (Isr conv) s)"

fun slots_written :: "event list \<Rightarrow> state \<Rightarrow> nat list" where
  "slots_written [] s = []"
| "slots_written (Fg # es) s = slots_written es (step Fg s)"
| "slots_written (Isr conv # es) s = ChannelCursor s # slots_written es (step (Isr conv) s)"

text \<open>
  One tick of the time base seen from the loop: the loop executes \<open>8 + k\<close> statements,
  enough for a whole pass through its body, then the timer fires.
\<close>

definition tick_round :: "nat \<times> u16 \<Rightarrow> event list" where
  "tick_round r = replicate (8 + fst r) Fg @ [Isr (snd r)]"

text \<open>
  The shared sampler state: the Tick Counter, the Channel Result Array and the Channel
  Cursor. \<open>isr_events\<close> keeps the timer firings of an interleaving and drops the
  statements of the loop.
\<close>

definition sampler_state :: "state \<Rightarrow> u32 \<times> u16 list \<times> nat" where
  "sampler_state s = (g_millis s, g_ADC_result s, ChannelCursor s)"

fun isr_events :: "event list \<Rightarrow> event list" where
  "isr_events [] = []"
| "isr_events (Fg # es) = isr_events es"
| "isr_events (Isr conv # es) = Isr conv # isr_events es"








section \<open>Properties of \<open>toggle_pin\<close>\<close>

lemma toggle_pin_ODR:
  "unat pin < 15 \<Longrightarrow>
   toggle_pin port pin = Some (port\<lparr>ODR := ODR port XOR ucast (push_bit (unat pin) (1 :: c_int))\<rparr>)"
proof -
  have "(ucast ((ucast (ODR port) :: c_int) XOR push_bit (unat pin) 1) :: u8)
      = ODR port XOR ucast (push_bit (unat pin) (1 :: c_int))"
    by (rule bit_word_eqI) (auto simp add: bit_simps)
  then show "unat pin < 15 \<Longrightarrow> ?thesis"
    by (simp add: toggle_pin_def)
qed

text \<open>
  C9. For every port state and every pin index 0..7, \<open>toggle_pin\<close> flips exactly bit
  \<open>pin\<close> of the output data register and leaves every other bit of ODR and the
  registers IDR, DDR, CR1 and CR2 as they were.
\<close>

theorem toggle_pin_flips_only_pin:
  assumes "unat pin < 8"
  shows "\<exists>port'. toggle_pin port pin = Some port'
           \<and> (\<forall>n. bit (ODR port') n = (if n = unat pin then \<not> bit (ODR port) n else bit (ODR port) n))
           \<and> IDR port' = IDR port \<and> DDR port' = DDR port
           \<and> CR1 port' = CR1 port \<and> CR2 port' = CR2 port"
proof -
  from assms have "unat pin < 15" by simp
  then have eq: "toggle_pin port pin
      = Some (port\<lparr>ODR := ODR port XOR ucast (push_bit (unat pin) (1 :: c_int))\<rparr>)"
    by (rule toggle_pin_ODR)
  have "bit (ODR port XOR ucast (push_bit (unat pin) (1 :: c_int))) n
      = (if n = unat pin then \<not> bit (ODR port) n else bit (ODR port) n)" for n
    using assms by (auto simp add: bit_simps dest: bit_imp_le_length)
  with eq show ?thesis by simp
qed

theorem toggle_pin_flips_only_pin_witness:
  "toggle_pin \<lparr>ODR = 0x81, IDR = 1, DDR = 0x20, CR1 = 0x20, CR2 = 0x20\<rparr> 5
     = Some \<lparr>ODR = 0xA1, IDR = 1, DDR = 0x20, CR1 = 0x20, CR2 = 0x20\<rparr>"
proof -
  have "unat (5 :: u8) < 8" by simp
  from toggle_pin_flips_only_pin [OF this, of "\<lparr>ODR = 0x81, IDR = 1, DDR = 0x20, CR1 = 0x20, CR2 = 0x20\<rparr>"]
  show ?thesis by (simp add: toggle_pin_def)
qed

text \<open>
  C10. For every port state and every pin index, two calls of \<open>toggle_pin\<close> in
  succession bring the port back to where it was: the output data register has its
  original value (and so has the rest of the port). The pin indices covered are all those
  for which C defines the shift, 0..14, which include the pins 0..7 of a port.
\<close>

theorem toggle_pin_twice:
  assumes "unat pin < 15"
  shows "\<exists>port'. toggle_pin port pin = Some port' \<and> toggle_pin port' pin = Some port"
proof -
  let ?m = "ucast (push_bit (unat pin) (1 :: c_int)) :: u8"
  let ?p = "port\<lparr>ODR := ODR port XOR ?m\<rparr>"
  have 1: "toggle_pin port pin = Some ?p"
    using assms by (rule toggle_pin_ODR)
  have "toggle_pin ?p pin = Some (?p\<lparr>ODR := ODR ?p XOR ?m\<rparr>)"
    using assms by (rule toggle_pin_ODR)
  also have "?p\<lparr>ODR := ODR ?p XOR ?m\<rparr> = port"
    by (simp add: xor.assoc)
  finally show ?thesis using 1 by blast
qed

theorem toggle_pin_twice_witness:
  "toggle_pin \<lparr>ODR = 0x81, IDR = 1, DDR = 0x20, CR1 = 0x20, CR2 = 0x20\<rparr> 5
     = Some \<lparr>ODR = 0xA1, IDR = 1, DDR = 0x20, CR1 = 0x20, CR2 = 0x20\<rparr>
   \<and> toggle_pin \<lparr>ODR = 0xA1, IDR = 1, DDR = 0x20, CR1 = 0x20, CR2 = 0x20\<rparr> 5
     = Some \<lparr>ODR = 0x81, IDR = 1, DDR = 0x20, CR1 = 0x20, CR2 = 0x20\<rparr>"
proof -
  have "unat (5 :: u8) < 15" by simp
  from toggle_pin_twice [OF this, of "\<lparr>ODR = 0x81, IDR = 1, DDR = 0x20, CR1 = 0x20, CR2 = 0x20\<rparr>"]
  show ?thesis by (simp add: toggle_pin_def)
qed

section \<open>Auxiliary facts\<close>

declare dec.simps [simp del]

subsection \<open>Output and formatting\<close>

lemma char_of_c_int: "char_of (unat (of_nat (of_char c) :: c_int)) = c"
proof -
  have "(of_char c :: nat) < 256" by simp
  then have "(of_char c :: nat) < 65536" by arith
  then have "unat (of_nat (of_char c) :: c_int) = of_char c"
    by (simp add: unat_of_nat take_bit_nat_eq_self)
  then show ?thesis by simp
qed

lemma put_all_append: "put_all str sent = sent @ str"
  unfolding put_all_def
  by (induction str arbitrary: sent) (simp_all add: putchar_def UART2_write_def char_of_c_int)




subsection \<open>What each step touches\<close>

lemmas stmt_defs = stmt_nextPrint_def stmt_toggle_def print_time_def print_AIN0_def
  print_AIN1_def print_AIN2_def print_AIN3_def printf_def

lemma fg_step_g_millis: "g_millis (fg_step s) = g_millis s"
  by (simp add: fg_step_def stmt_defs split: label.split)

lemma fg_step_g_ADC_result: "g_ADC_result (fg_step s) = g_ADC_result s"
  by (simp add: fg_step_def stmt_defs split: label.split)

lemma fg_step_ChannelCursor: "ChannelCursor (fg_step s) = ChannelCursor s"
  by (simp add: fg_step_def stmt_defs split: label.split)

lemma fg_step_nextPrint:
  "nextPrint (fg_step s) = (if pc s = At_nextPrint then nextPrint s + 500 else nextPrint s)"
  by (simp add: fg_step_def stmt_defs split: label.split)

lemma handler_pc: "pc (Sampling_Handler conv s) = pc s"
  by (simp add: Sampling_Handler_def Let_def)

lemma handler_nextPrint: "nextPrint (Sampling_Handler conv s) = nextPrint s"
  by (simp add: Sampling_Handler_def Let_def)


lemma handler_g_millis: "g_millis (Sampling_Handler conv s) = g_millis s + 1"
  by (simp add: Sampling_Handler_def Let_def)

lemma handler_ChannelCursor:
  "ChannelCursor (Sampling_Handler conv s) = (ChannelCursor s + 1) mod N_CHANNELS"
  by (simp add: Sampling_Handler_def Let_def)

lemma handler_g_ADC_result:
  "g_ADC_result (Sampling_Handler conv s) = (g_ADC_result s)[ChannelCursor s := conv]"
  by (simp add: Sampling_Handler_def Let_def)

subsection \<open>Interleavings\<close>

lemma run_append: "run (a @ b) s = run b (run a s)"
  by (induction a arbitrary: s) simp_all

lemma fires_append: "fires (a @ b) s = fires a s @ fires b (run a s)"
  by (induction a s rule: fires.induct) simp_all

lemma run_g_millis: "g_millis (run sched s) = g_millis s + of_nat (firings sched)"
proof (induction sched arbitrary: s)
  case Nil
  show ?case by simp
next
  case (Cons e es)
  show ?case
    by (cases e) (simp_all add: Cons.IH fg_step_g_millis handler_g_millis)
qed

lemma deadline_invariant:
  "nextPrint (run sched s) + (if pc (run sched s) = At_nextPrint then 500 else 0)
     = nextPrint s + (if pc s = At_nextPrint then 500 else 0) + 500 * of_nat (length (fires sched s))"
proof (induction sched arbitrary: s)
  case Nil
  show ?case by simp
next
  case (Cons e es)
  show ?case
  proof (cases e)
    case Fg
    have "nextPrint (fg_step s) + (if pc (fg_step s) = At_nextPrint then 500 else 0)
        = nextPrint s + (if pc s = At_nextPrint then 500 else 0)
          + (if pc s = At_if \<and> nextPrint s \<le> g_millis s then 500 else 0)"
      by (cases "pc s") (simp_all add: fg_step_def stmt_defs)
    with Cons.IH [of "fg_step s"] Fg show ?thesis
      by (simp add: algebra_simps)
  next
    case (Isr conv)
    with Cons.IH [of "Sampling_Handler conv s"] show ?thesis
      by (simp add: handler_pc handler_nextPrint)
  qed
qed


subsection \<open>Passes of the loop\<close>

lemma quiet_steps:
  "pc s = At_if \<Longrightarrow> g_millis s < nextPrint s \<Longrightarrow>
   run (replicate n Fg) s = s \<and> fires (replicate n Fg) s = []"
  by (induction n) (simp_all add: fg_step_def)

lemma eight_steps: "replicate (8 + k) Fg = [Fg, Fg, Fg, Fg, Fg, Fg, Fg, Fg] @ replicate k Fg"
  by (simp add: eval_nat_numeral)

lemma report_pass:
  assumes "pc s = At_if" and "nextPrint s \<le> g_millis s"
  shows "fires [Fg, Fg, Fg, Fg, Fg, Fg, Fg, Fg] s = [g_millis s]"
    and "pc (run [Fg, Fg, Fg, Fg, Fg, Fg, Fg, Fg] s) = At_if"
    and "nextPrint (run [Fg, Fg, Fg, Fg, Fg, Fg, Fg, Fg] s) = nextPrint s + 500"
    and "g_millis (run [Fg, Fg, Fg, Fg, Fg, Fg, Fg, Fg] s) = g_millis s"
  using assms by (simp_all add: fg_step_def stmt_defs)

lemma report_steps:
  assumes "pc s = At_if" and "nextPrint s \<le> g_millis s" and "g_millis s < nextPrint s + 500"
  shows "fires (replicate (8 + k) Fg) s = [g_millis s]"
    and "pc (run (replicate (8 + k) Fg) s) = At_if"
    and "nextPrint (run (replicate (8 + k) Fg) s) = nextPrint s + 500"
    and "g_millis (run (replicate (8 + k) Fg) s) = g_millis s"
proof -
  let ?s = "run [Fg, Fg, Fg, Fg, Fg, Fg, Fg, Fg] s"
  note p = report_pass [OF assms(1,2)]
  from p assms(3) have "pc ?s = At_if" and "g_millis ?s < nextPrint ?s"
    by simp_all
  from quiet_steps [OF this, of k]
  have q: "run (replicate k Fg) ?s = ?s" "fires (replicate k Fg) ?s = []"
    by simp_all
  show "fires (replicate (8 + k) Fg) s = [g_millis s]"
    unfolding eight_steps fires_append using p(1) q(2) by simp
  show "pc (run (replicate (8 + k) Fg) s) = At_if"
    unfolding eight_steps run_append using p(2) q(1) by simp
  show "nextPrint (run (replicate (8 + k) Fg) s) = nextPrint s + 500"
    unfolding eight_steps run_append using p(3) q(1) by simp
  show "g_millis (run (replicate (8 + k) Fg) s) = g_millis s"
    unfolding eight_steps run_append using p(4) q(1) by simp
qed

lemma quiet_round:
  assumes "pc s = At_if" and "g_millis s < nextPrint s"
  shows "fires (tick_round r) s = []"
    and "pc (run (tick_round r) s) = At_if"
    and "nextPrint (run (tick_round r) s) = nextPrint s"
    and "g_millis (run (tick_round r) s) = g_millis s + 1"
  using quiet_steps [OF assms, of "8 + fst r"]
  by (simp_all add: tick_round_def fires_append run_append assms(1)
      handler_pc handler_nextPrint handler_g_millis)

lemma report_round:
  assumes "pc s = At_if" and "nextPrint s \<le> g_millis s" and "g_millis s < nextPrint s + 500"
  shows "fires (tick_round r) s = [g_millis s]"
    and "pc (run (tick_round r) s) = At_if"
    and "nextPrint (run (tick_round r) s) = nextPrint s + 500"
    and "g_millis (run (tick_round r) s) = g_millis s + 1"
  using report_steps [OF assms, of "fst r"]
  by (simp_all add: tick_round_def fires_append run_append
      handler_pc handler_nextPrint handler_g_millis)

lemma quiet_rounds:
  "pc s = At_if \<Longrightarrow> unat (g_millis s) + length rs \<le> unat (nextPrint s) \<Longrightarrow>
   fires (concat (map tick_round rs)) s = []
   \<and> pc (run (concat (map tick_round rs)) s) = At_if
   \<and> nextPrint (run (concat (map tick_round rs)) s) = nextPrint s
   \<and> g_millis (run (concat (map tick_round rs)) s) = g_millis s + of_nat (length rs)"
proof (induction rs arbitrary: s)
  case Nil
  then show ?case by simp
next
  case (Cons r rs)
  let ?s = "run (tick_round r) s"
  from Cons.prems have lt: "g_millis s < nextPrint s"
    by (simp add: word_less_nat_alt)
  note q = quiet_round [OF Cons.prems(1) lt, of r]
  have "unat (nextPrint s) < 2 ^ 32"
    using unsigned_less [of "nextPrint s", where 'a = nat] by simp
  with lt have "unat (g_millis s) + 1 < 2 ^ 32"
    by (simp add: word_less_nat_alt)
  then have "unat (g_millis s + 1) = unat (g_millis s) + 1"
    by (simp add: unat_word_ariths)
  with Cons.prems q have "unat (g_millis ?s) + length rs \<le> unat (nextPrint ?s)"
    by simp
  from Cons.IH [OF q(2) this] q show ?case
    by (simp add: fires_append run_append add.assoc)
qed

subsection \<open>The sampler state under interleavings\<close>

lemma handler_sampler_state:
  "sampler_state s = sampler_state s' \<Longrightarrow>
   sampler_state (Sampling_Handler conv s) = sampler_state (Sampling_Handler conv s')"
  by (simp add: sampler_state_def Sampling_Handler_def Let_def)

lemma fg_step_sampler_state: "sampler_state (fg_step s) = sampler_state s"
  by (simp add: sampler_state_def fg_step_g_millis fg_step_g_ADC_result fg_step_ChannelCursor)

lemma run_sampler_state:
  "sampler_state s = sampler_state s' \<Longrightarrow>
   sampler_state (run sched s) = sampler_state (run (isr_events sched) s')"
proof (induction sched arbitrary: s s')
  case Nil
  then show ?case by simp
next
  case (Cons e es)
  show ?case
  proof (cases e)
    case Fg
    from Cons.prems have "sampler_state (fg_step s) = sampler_state s'"
      by (simp add: fg_step_sampler_state)
    from Cons.IH [OF this] Fg show ?thesis by simp
  next
    case (Isr conv)
    from Cons.IH [OF handler_sampler_state [OF Cons.prems, of conv]] Isr
    show ?thesis by simp
  qed
qed

subsection \<open>Evaluation at concrete inputs\<close>

lemmas eval_defs = main_init_def N_CHANNELS_def fg_step_def stmt_defs Sampling_Handler_def
  Let_def put_all_append

lemma replicate_4: "replicate 4 x = [x, x, x, x]"
  by (simp add: numeral_eq_Suc)

section \<open>Properties of the output routine\<close>

text \<open>
  C8. For every input byte (indeed for every \<open>int\<close>), \<open>putchar\<close> hands the value to
  the output sink once and returns that same value, whatever the sink answers: the sink's
  outcome, a failure included, is neither inspected nor passed on. The sink \<open>w\<close> is
  arbitrary, so this covers sinks that report an error and sinks that drop the byte.
\<close>

theorem putchar_returns_its_byte:
  "fst (putchar w data u) = data \<and> snd (putchar w data u) = fst (w u data)"
  by (simp add: putchar_def split: prod.split)

section \<open>Properties of the foreground loop\<close>

text \<open>
  C1. Whenever the report branch fires, the deadline is advanced by adding the fixed
  interval to the previous deadline: the only statement of the loop that writes
  \<open>nextPrint\<close> is \<open>nextPrint += 500\<close>, and the new value does not depend on the tick
  counter. Hence, for every interleaving of the loop with the handler that starts and ends
  outside that statement, after \<open>k\<close> firings of the branch the deadline is the initial
  deadline plus \<open>k * 500\<close>, in the arithmetic of \<open>uint32_t\<close> (modulo \<open>2 ^ 32\<close>).
\<close>

theorem deadline_additive:
  assumes "pc s \<noteq> At_nextPrint" and "pc (run sched s) \<noteq> At_nextPrint"
  shows "nextPrint (fg_step s') = (if pc s' = At_nextPrint then nextPrint s' + 500 else nextPrint s')
       \<and> nextPrint (run sched s) = nextPrint s + 500 * of_nat (length (fires sched s))
       \<and> unat (nextPrint (run sched s))
           = (unat (nextPrint s) + 500 * length (fires sched s)) mod 2 ^ 32"
proof -
  from deadline_invariant [of sched s] assms
  have eq: "nextPrint (run sched s) = nextPrint s + 500 * of_nat (length (fires sched s))"
    by simp
  have "unat (nextPrint s + 500 * of_nat (length (fires sched s)))
      = (unat (nextPrint s) + 500 * length (fires sched s)) mod 2 ^ 32"
    by (simp add: unat_word_ariths unat_of_nat mod_add_right_eq mod_mult_right_eq)
  with eq show ?thesis
    by (simp add: fg_step_nextPrint)
qed

theorem deadline_additive_witness:
  "pc main_init \<noteq> At_nextPrint
   \<and> fires [Isr 7, Isr 8, Isr 9, Fg, Fg, Fg, Fg, Fg, Fg, Fg, Fg] main_init = [3]
   \<and> nextPrint (run [Isr 7, Isr 8, Isr 9, Fg, Fg, Fg, Fg, Fg, Fg, Fg, Fg] main_init) = 500"
  using deadline_additive [of main_init "[Isr 7, Isr 8, Isr 9, Fg, Fg, Fg, Fg, Fg, Fg, Fg, Fg]"]
  by (simp add: eval_defs)

text \<open>
  C2, as the claim states it: the loop starts with its deadline at the first interval,
  500, and, with the ticks arriving as 0, 1, ..., 1000, reports fire at the ticks 500 and
  1000 only. The code starts with \<open>nextPrint = 0\<close>, so the very first test of the loop
  succeeds: a report fires at tick 0.
\<close>

theorem first_report_at_tick_0_counterexample:
  "nextPrint main_init \<noteq> 500 \<and> fires [Fg] main_init = [0]"
  by (simp add: main_init_def)

text \<open>
  C2, amended. The loop starts with its deadline at 0, so its deadline sequence is
  0, 500, 1000, ...: with the ticks arriving as 0, 1, ..., 1000 (the loop runs at least
  a whole pass, \<open>8 + k\<close> statements, at every tick value, and the handler may read any
  conversion results), a report fires exactly at the ticks 0, 500 and 1000, and the
  deadline is 1500 afterwards.
\<close>

theorem reports_at_0_500_1000:
  assumes "length rs = 1000"
  shows "nextPrint main_init = 0
       \<and> fires (concat (map tick_round rs) @ replicate (8 + k) Fg) main_init = [0, 500, 1000]
       \<and> nextPrint (run (concat (map tick_round rs) @ replicate (8 + k) Fg) main_init) = 1500"
proof -
  from assms obtain r0 rs' where rs: "rs = r0 # rs'" and l': "length rs' = 999"
    by (cases rs) simp_all
  define a where "a = take 499 rs'"
  define b where "b = drop 499 rs'"
  from l' have la: "length a = 499" and lb: "length b = 500" and ab: "rs' = a @ b"
    by (simp_all add: a_def b_def)
  from lb obtain r500 c where b: "b = r500 # c" and lc: "length c = 499"
    by (cases b) simp_all
  let ?A = "concat (map tick_round a)" and ?C = "concat (map tick_round c)"
  have sched: "concat (map tick_round rs) @ replicate (8 + k) Fg
      = tick_round r0 @ ?A @ tick_round r500 @ ?C @ replicate (8 + k) Fg"
    by (simp add: rs ab b)
  define s1 where "s1 = run (tick_round r0) main_init"
  define s2 where "s2 = run ?A s1"
  define s3 where "s3 = run (tick_round r500) s2"
  define s4 where "s4 = run ?C s3"
  have i: "pc main_init = At_if" "nextPrint main_init = 0" "g_millis main_init = 0"
    by (simp_all add: main_init_def)
  have 1: "fires (tick_round r0) main_init = [0]" "pc s1 = At_if" "nextPrint s1 = 500" "g_millis s1 = 1"
    using report_round [of main_init r0] i by (simp_all add: s1_def)
  have 2: "fires ?A s1 = []" "pc s2 = At_if" "nextPrint s2 = 500" "g_millis s2 = 500"
    using quiet_rounds [of s1 a] 1 la by (simp_all add: s2_def)
  have 3: "fires (tick_round r500) s2 = [500]" "pc s3 = At_if" "nextPrint s3 = 1000" "g_millis s3 = 501"
    using report_round [of s2 r500] 2 by (simp_all add: s3_def)
  have 4: "fires ?C s3 = []" "pc s4 = At_if" "nextPrint s4 = 1000" "g_millis s4 = 1000"
    using quiet_rounds [of s3 c] 3 lc by (simp_all add: s4_def)
  have 5: "fires (replicate (8 + k) Fg) s4 = [1000]"
    "nextPrint (run (replicate (8 + k) Fg) s4) = 1500"
    using report_steps [of s4 k] 4 by simp_all
  show ?thesis
    unfolding sched
    using i 1 2 3 4 5
    by (simp add: fires_append run_append s1_def [symmetric] s2_def [symmetric]
        s3_def [symmetric] s4_def [symmetric])
qed

theorem reports_at_0_500_1000_witness:
  "fires (concat (map tick_round (replicate 1000 (0, 0))) @ replicate 8 Fg) main_init = [0, 500, 1000]"
  using reports_at_0_500_1000 [of "replicate 1000 (0, 0)" 0] by simp

text \<open>
  C3. No statement of the foreground loop writes the shared sampler state: the tick
  counter \<open>g_millis\<close>, the result array \<open>g_ADC_result\<close> and the channel cursor are the
  same after every statement of the loop as before it. Only the handler changes them: in
  every interleaving, the sampler state at the end is the one that the timer firings alone
  produce, with every statement of the loop removed.
\<close>

theorem loop_never_writes_sampler_state:
  "g_millis (fg_step s) = g_millis s
   \<and> g_ADC_result (fg_step s) = g_ADC_result s
   \<and> ChannelCursor (fg_step s) = ChannelCursor s
   \<and> sampler_state (run sched s) = sampler_state (run (isr_events sched) s)"
  using run_sampler_state [of s s sched]
  by (simp add: fg_step_g_millis fg_step_g_ADC_result fg_step_ChannelCursor)

subsection \<open>What a pass through the report branch prints\<close>











subsection \<open>Decimal printing\<close>
















subsection \<open>Counting reports\<close>












section \<open>Properties of the Sampling Handler\<close>

text \<open>
  C4. Every firing of the handler increments the tick counter by exactly 1. For every
  interleaving with the foreground loop, after \<open>M\<close> firings the counter is its initial
  value plus \<open>M\<close>, reduced modulo \<open>2 ^ 32\<close>, the range of its unsigned type; it is 0 at
  startup and nothing resets it, so from startup it is \<open>M mod 2 ^ 32\<close>.
\<close>

theorem tick_counter_counts_firings:
  "g_millis (Sampling_Handler conv s) = g_millis s + 1
   \<and> g_millis (run sched s) = g_millis s + of_nat (firings sched)
   \<and> unat (g_millis (run sched s)) = (unat (g_millis s) + firings sched) mod 2 ^ 32
   \<and> g_millis main_init = 0
   \<and> unat (g_millis (run sched main_init)) = firings sched mod 2 ^ 32"
proof -
  have "unat (g_millis s' + of_nat (firings sched)) = (unat (g_millis s') + firings sched) mod 2 ^ 32" for s' :: state
    by (simp add: unat_word_ariths unat_of_nat mod_add_right_eq)
  from this [of s] this [of main_init] show ?thesis
    by (simp add: run_g_millis handler_g_millis) (simp add: main_init_def)
qed

subsection \<open>The handler's round robin\<close>

lemma slots_written_round_robin:
  "ChannelCursor s < N_CHANNELS \<Longrightarrow>
   slots_written sched s = map (\<lambda>k. (ChannelCursor s + k) mod N_CHANNELS) [0..<firings sched]"
proof (induction sched arbitrary: s)
  case Nil
  show ?case by simp
next
  case (Cons e es)
  show ?case
  proof (cases e)
    case Fg
    with Cons.IH [of "fg_step s"] Cons.prems show ?thesis
      by (simp add: fg_step_ChannelCursor)
  next
    case (Isr conv)
    let ?s = "Sampling_Handler conv s"
    have c: "ChannelCursor ?s = (ChannelCursor s + 1) mod N_CHANNELS"
      by (rule handler_ChannelCursor)
    then have "ChannelCursor ?s < N_CHANNELS"
      by (simp add: N_CHANNELS_def)
    from Cons.IH [OF this]
    have "slots_written es ?s
        = map (\<lambda>k. (ChannelCursor s + Suc k) mod N_CHANNELS) [0..<firings es]"
      by (simp add: c mod_add_left_eq)
    with Isr Cons.prems show ?thesis
      by (simp add: map_upt_Suc del: upt_Suc)
  qed
qed

lemma run_ChannelCursor:
  "ChannelCursor s < N_CHANNELS \<Longrightarrow>
   ChannelCursor (run sched s) = (ChannelCursor s + firings sched) mod N_CHANNELS"
proof (induction sched arbitrary: s)
  case Nil
  then show ?case by simp
next
  case (Cons e es)
  show ?case
  proof (cases e)
    case Fg
    with Cons.IH [of "fg_step s"] Cons.prems show ?thesis
      by (simp add: fg_step_ChannelCursor)
  next
    case (Isr conv)
    let ?s = "Sampling_Handler conv s"
    have c: "ChannelCursor ?s = (ChannelCursor s + 1) mod N_CHANNELS"
      by (rule handler_ChannelCursor)
    then have "ChannelCursor ?s < N_CHANNELS"
      by (simp add: N_CHANNELS_def)
    from Cons.IH [OF this] Isr show ?thesis
      by (simp add: c mod_add_left_eq)
  qed
qed

lemma length_conversions: "length (conversions sched) = firings sched"
  by (induction sched rule: firings.induct) simp_all

lemma run_g_ADC_result:
  "g_ADC_result (run sched s)
     = fold (\<lambda>(i, v) a. a[i := v]) (zip (slots_written sched s) (conversions sched)) (g_ADC_result s)"
proof (induction sched arbitrary: s)
  case Nil
  show ?case by simp
next
  case (Cons e es)
  show ?case
    by (cases e) (simp_all add: Cons.IH fg_step_g_ADC_result handler_g_ADC_result)
qed




lemma four_elements: "length xs = 4 \<Longrightarrow> xs = [xs ! 0, xs ! 1, xs ! 2, xs ! 3]"
proof -
  assume l: "length xs = 4"
  then obtain a b c d where "xs = [a, b, c, d]"
    by (auto simp add: length_Suc_conv numeral_eq_Suc)
  then show ?thesis by simp
qed

lemma window_contents:
  assumes "c < 4" and "length a = 4" and "k < 4"
  shows "a[c := v0, (c + 1) mod 4 := v1, (c + 2) mod 4 := v2, (c + 3) mod 4 := v3] ! ((c + k) mod 4)
       = [v0, v1, v2, v3] ! k"
proof -
  from assms(2) obtain a0 a1 a2 a3 where a: "a = [a0, a1, a2, a3]"
    by (auto simp add: length_Suc_conv numeral_eq_Suc)
  from assms(1) consider "c = 0" | "c = 1" | "c = 2" | "c = 3" by linarith
  then show ?thesis
  proof cases
    case 1
    from assms(3) consider "k = 0" | "k = 1" | "k = 2" | "k = 3" by linarith
    then show ?thesis by cases (simp_all add: a 1)
  next
    case 2
    from assms(3) consider "k = 0" | "k = 1" | "k = 2" | "k = 3" by linarith
    then show ?thesis by cases (simp_all add: a 2)
  next
    case 3
    from assms(3) consider "k = 0" | "k = 1" | "k = 2" | "k = 3" by linarith
    then show ?thesis by cases (simp_all add: a 3)
  next
    case 4
    from assms(3) consider "k = 0" | "k = 1" | "k = 2" | "k = 3" by linarith
    then show ?thesis by cases (simp_all add: a 4)
  qed
qed

lemma length_run_g_ADC_result: "length (g_ADC_result (run sched s)) = length (g_ADC_result s)"
proof (induction sched arbitrary: s)
  case Nil
  show ?case by simp
next
  case (Cons e es)
  show ?case
    by (cases e) (simp_all add: Cons.IH fg_step_g_ADC_result handler_g_ADC_result)
qed

text \<open>From startup the cursor stays below the channel count and the array keeps its size.\<close>

lemma reachable_sampler_invariant:
  "ChannelCursor (run pre main_init) < N_CHANNELS
   \<and> length (g_ADC_result (run pre main_init)) = N_CHANNELS"
proof -
  have "ChannelCursor main_init < N_CHANNELS"
    by (simp add: main_init_def N_CHANNELS_def)
  from run_ChannelCursor [OF this, of pre] show ?thesis
    by (simp add: length_run_g_ADC_result) (simp add: main_init_def N_CHANNELS_def)
qed

text \<open>
  C5. Every firing of the handler writes exactly one slot of the result array, the one
  under the cursor. In every window of \<open>N_CHANNELS = 4\<close> consecutive firings, however
  the statements of the foreground loop are interleaved with them, the slots written are
  \<open>c, c + 1, c + 2, c + 3\<close> modulo 4 in this order (\<open>c\<close> the cursor at the start of the
  window), which are all the slots \<open>0..3\<close>: every slot is written, slot
  \<open>(c + k) mod 4\<close> holds the conversion result of the \<open>k\<close>-th firing of the window, and
  the cursor is back at \<open>c\<close>. The window may start in any state whose cursor is below
  4 and whose array has its 4 slots, which every state reached from startup satisfies.
\<close>

theorem round_robin_window:
  assumes "ChannelCursor s < N_CHANNELS" and "length (g_ADC_result s) = N_CHANNELS"
    and "firings sched = N_CHANNELS"
  shows "g_ADC_result (Sampling_Handler conv s') = (g_ADC_result s')[ChannelCursor s' := conv]
       \<and> slots_written sched s = map (\<lambda>k. (ChannelCursor s + k) mod N_CHANNELS) [0..<N_CHANNELS]
       \<and> set (slots_written sched s) = {0..<N_CHANNELS}
       \<and> (\<forall>k<N_CHANNELS. g_ADC_result (run sched s) ! ((ChannelCursor s + k) mod N_CHANNELS)
             = conversions sched ! k)
       \<and> ChannelCursor (run sched s) = ChannelCursor s"
proof -
  let ?c = "ChannelCursor s"
  from assms(1) have c4: "?c < 4" by (simp add: N_CHANNELS_def)
  have upt4: "[0..<4] = [0, 1, 2, 3 :: nat]" by (simp add: upt_rec)
  have slots: "slots_written sched s = map (\<lambda>k. (?c + k) mod N_CHANNELS) [0..<N_CHANNELS]"
    using slots_written_round_robin [OF assms(1), of sched] assms(3) by simp
  then have slots4: "slots_written sched s = [?c, (?c + 1) mod 4, (?c + 2) mod 4, (?c + 3) mod 4]"
    using c4 by (simp add: N_CHANNELS_def upt4)
  from c4 consider "?c = 0" | "?c = 1" | "?c = 2" | "?c = 3" by linarith
  then have cover: "set (slots_written sched s) = {0..<N_CHANNELS}"
    unfolding slots4 by cases (auto simp add: N_CHANNELS_def)
  from length_conversions [of sched] assms(3) have "length (conversions sched) = 4"
    by (simp add: N_CHANNELS_def)
  from four_elements [OF this] obtain v0 v1 v2 v3 where conv: "conversions sched = [v0, v1, v2, v3]"
    by blast
  have arr: "g_ADC_result (run sched s)
      = (g_ADC_result s)[?c := v0, (?c + 1) mod 4 := v1, (?c + 2) mod 4 := v2, (?c + 3) mod 4 := v3]"
    by (simp add: run_g_ADC_result slots4 conv)
  from assms(2) have len: "length (g_ADC_result s) = 4" by (simp add: N_CHANNELS_def)
  have contents: "\<forall>k<N_CHANNELS. g_ADC_result (run sched s) ! ((?c + k) mod N_CHANNELS)
      = conversions sched ! k"
    unfolding arr conv using window_contents [OF c4 len] by (simp add: N_CHANNELS_def)
  have cycle: "ChannelCursor (run sched s) = ?c"
    using run_ChannelCursor [OF assms(1), of sched] assms(1,3) by simp
  from slots cover contents cycle show ?thesis
    by (simp add: handler_g_ADC_result)
qed

theorem round_robin_window_witness:
  "slots_written [Isr 11, Fg, Isr 12, Isr 13, Fg, Fg, Isr 14] (run [Isr 1] main_init) = [1, 2, 3, 0]
   \<and> g_ADC_result (run [Isr 11, Fg, Isr 12, Isr 13, Fg, Fg, Isr 14] (run [Isr 1] main_init))
       = [14, 11, 12, 13]
   \<and> ChannelCursor (run [Isr 11, Fg, Isr 12, Isr 13, Fg, Fg, Isr 14] (run [Isr 1] main_init)) = 1"
proof -
  let ?s = "run [Isr 1] main_init"
  let ?w = "[Isr 11, Fg, Isr 12, Isr 13, Fg, Fg, Isr 14]"
  have s: "?s = main_init\<lparr>g_ADC_result := [1, 0, 0, 0], ChannelCursor := 1, ADC_channel := 1,
      g_millis := 1\<rparr>"
    by (simp add: eval_defs replicate_4)
  from reachable_sampler_invariant [of "[Isr 1]"]
  have 1: "ChannelCursor ?s < N_CHANNELS" and 2: "length (g_ADC_result ?s) = N_CHANNELS"
    by simp_all
  have 3: "firings ?w = N_CHANNELS"
    by (simp add: N_CHANNELS_def)
  have c: "conversions ?w = [11, 12, 13, 14]" by simp
  have u: "[0..<4] = [0, 1, 2, 3 :: nat]" by (simp add: upt_rec)
  have "ChannelCursor ?s = 1" unfolding s by simp
  with round_robin_window [OF 1 2 3] c have
    "slots_written ?w ?s = [1, 2, 3, 0]"
    "ChannelCursor (run ?w ?s) = 1"
    by (simp_all add: N_CHANNELS_def u)
  moreover have "g_ADC_result (run ?w ?s) = [14, 11, 12, 13]"
    unfolding s
    by (simp add: eval_defs replicate_4)
  ultimately show ?thesis by simp
qed

end
